theory Spec2Isabelle
  imports Main "HOL-Library.Word" "HOL-Library.Log_Nat"
begin

section \<open>Machine types\<close>

text \<open>
  The model fixes the usual 64-bit platform of the library: \<open>size_t\<close> and Armadillo's
  \<open>uword\<close> are 64-bit unsigned words (subtraction and addition wrap), \<open>int\<close> and
  \<open>uint32_t\<close> are 32-bit words, read as two's complement through \<open>sint\<close>
  where the source type is signed.
\<close>

type_synonym size_t = "64 word"
type_synonym c_int = "32 word"
type_synonym uint32_t = "32 word"

section \<open>Doubles\<close>

text \<open>
  A finite \<open>double\<close> is a mantissa of at most 53 bits and a binary exponent; \<open>Double m e\<close>
  stands for \<open>m * 2 ^ e\<close>. The exponent is left unbounded: the only arithmetic of the
  source is the product of an \<open>int\<close> and a number of \<open>[0, 1)\<close>, which neither
  overflows nor loses bits to a subnormal result.
\<close>

datatype double = Double (mant: int) (expo: int)

text \<open>Round to nearest, ties to even, to 53 significant bits: the rounding of every
  arithmetic operation on a \<open>double\<close>.\<close>

definition round53 :: "int \<Rightarrow> int \<Rightarrow> double" where
  "round53 m e =
     (let a = \<bar>m\<bar>; l = bitlen a in
      if l \<le> 53 then Double m e
      else
        (let s = nat (l - 53);
             q = a div 2 ^ s;
             r = a mod 2 ^ s;
             h = 2 ^ (s - 1);
             q' = (if h < r \<or> (r = h \<and> odd q) then q + 1 else q)
         in Double (sgn m * q') (e + int s)))"

text \<open>\<open>(double) i\<close> for an \<open>int\<close>: exact, 32 bits fit the mantissa.\<close>

definition double_of_int :: "c_int \<Rightarrow> double" where
  "double_of_int i = Double (sint i) 0"

text \<open>The operator \<open>*\<close> on doubles.\<close>

definition dmul :: "double \<Rightarrow> double \<Rightarrow> double" where
  "dmul x y = round53 (mant x * mant y) (expo x + expo y)"

text \<open>\<open>std::floor\<close>, read as the integer it returns.\<close>

definition dfloor :: "double \<Rightarrow> int" where
  "dfloor x = (if 0 \<le> expo x then mant x * 2 ^ nat (expo x)
               else mant x div 2 ^ nat (- expo x))"

text \<open>\<open>(int) d\<close> for an integral \<open>d\<close>. A value outside the range of \<open>int\<close>
  would be undefined behaviour; \<open>RandInt\<close> never produces one
  (lemma \<open>RandInt_cast_exact\<close>).\<close>

definition int_of_floor :: "int \<Rightarrow> c_int" where
  "int_of_floor z = word_of_int z"

text \<open>The contract of \<open>std::uniform_real_distribution<>(0.0, 1.0)\<close>: a double
  of \<open>[0, 1)\<close>.\<close>

definition unit_double :: "double \<Rightarrow> bool" where
  "unit_double u \<longleftrightarrow>
     0 \<le> mant u \<and> mant u < 2 ^ 53 \<and>
     (if 0 \<le> expo u then mant u = 0 else mant u < 2 ^ nat (- expo u))"

section \<open>The shared generator\<close>

text \<open>
  \<open>randGen\<close> is a \<open>std::mt19937\<close> and \<open>randUniformDist\<close> a
  \<open>std::uniform_real_distribution<>\<close>; neither is code of this file. The engine's
  state is a type parameter \<open>'g\<close>; \<open>randUniformDist(randGen)\<close> is a parameter
  \<open>U\<close> that maps a state to the double drawn and the state after the draw, and
  \<open>randGen.seed\<close> a parameter \<open>sd\<close>.
\<close>

definition unit_dist :: "('g \<Rightarrow> double \<times> 'g) \<Rightarrow> bool" where
  "unit_dist U \<longleftrightarrow> (\<forall>g. unit_double (fst (U g)))"

text \<open>\<open>RandomSeed\<close> (the build without \<open>BINDING_TYPE\<close>): the seed is cast to 32 bits
  and given to the engine. \<open>srand\<close> and \<open>arma_rng::set_seed\<close> seed two other
  generators, which no function of this file reads.\<close>

definition RandomSeed :: "(uint32_t \<Rightarrow> 'g) \<Rightarrow> size_t \<Rightarrow> 'g \<Rightarrow> 'g" where
  "RandomSeed sd seed g = sd (ucast seed)"

text \<open>\<open>RandInt(hiExclusive)\<close>:
  \<open>(int) std::floor((double) hiExclusive * randUniformDist(randGen))\<close>.\<close>

definition RandInt :: "('g \<Rightarrow> double \<times> 'g) \<Rightarrow> c_int \<Rightarrow> 'g \<Rightarrow> c_int \<times> 'g" where
  "RandInt U hiExclusive g =
     (case U g of (u, g') \<Rightarrow>
        (int_of_floor (dfloor (dmul (double_of_int hiExclusive) u)), g'))"

section \<open>Distinct samples\<close>

text \<open>Armadillo's \<open>operator[]\<close> checks no bounds: an index outside the vector is
  undefined behaviour, which the model reports as an error.\<close>

datatype error = OutOfBounds

text \<open>The loop \<open>for (size_t i = 0; i < maxNumSamples; ++i)
  samples[(size_t) RandInt(samplesRangeSize)]++\<close>. The argument is narrowed from
  \<open>size_t\<close> to the \<open>int\<close> parameter of \<open>RandInt\<close> and the result widened
  back with sign extension.\<close>

function draw_loop ::
  "('g \<Rightarrow> double \<times> 'g) \<Rightarrow> size_t \<Rightarrow> size_t \<Rightarrow> size_t \<Rightarrow> size_t list \<Rightarrow> 'g
     \<Rightarrow> error + (size_t list \<times> 'g)" where
  "draw_loop U samplesRangeSize maxNumSamples i samples g =
     (if i < maxNumSamples then
        (case RandInt U (ucast samplesRangeSize) g of (r, g') \<Rightarrow>
           (let idx = unat (scast r :: size_t) in
            if idx < length samples
            then draw_loop U samplesRangeSize maxNumSamples (i + 1)
                   (samples[idx := samples ! idx + 1]) g'
            else Inl OutOfBounds))
      else Inr (samples, g))"
  by pat_completeness auto
termination
proof (relation "measure (\<lambda>(U, rs, n, i, s, g). unat n - unat i)", goal_cases)
  case 1
  show ?case by simp
next
  case (2 U rs n i s g x y)
  have "unat n < 2 ^ 64" using unsigned_less [of n, where ?'a = nat] by simp
  with 2(1) have "unat (i + 1) = Suc (unat i)"
    by (simp add: word_less_nat_alt unat_word_ariths)
  with 2(1) show ?case by (simp add: word_less_nat_alt)
qed

text \<open>\<open>samples > 0\<close>: the element-wise comparison, a vector of zeros and ones.\<close>

definition gt_scalar :: "size_t list \<Rightarrow> size_t \<Rightarrow> size_t list" where
  "gt_scalar xs k = map (\<lambda>x. if k < x then 1 else 0) xs"

text \<open>\<open>arma::find\<close>: the indices of the non-zero elements, in ascending order.\<close>

definition find_arma :: "size_t list \<Rightarrow> size_t list" where
  "find_arma xs = map of_nat (filter (\<lambda>j. xs ! j \<noteq> 0) [0..<length xs])"

text \<open>\<open>distinctSamples += loInclusive\<close>.\<close>

definition add_scalar :: "size_t list \<Rightarrow> size_t \<Rightarrow> size_t list" where
  "add_scalar xs k = map (\<lambda>x. x + k) xs"

text \<open>\<open>set_size\<close> keeps the memory when the size does not change and takes fresh,
  uninitialised memory otherwise; \<open>mem\<close> is what that memory happens to hold.\<close>

definition set_size :: "(nat \<Rightarrow> size_t) \<Rightarrow> size_t list \<Rightarrow> nat \<Rightarrow> size_t list" where
  "set_size mem xs n = (if length xs = n then xs else map mem [0..<n])"

text \<open>The loop \<open>for (size_t i = 0; i < samplesRangeSize; ++i)
  distinctSamples[i] = loInclusive + i\<close>.\<close>

function fill_loop ::
  "size_t \<Rightarrow> size_t \<Rightarrow> size_t \<Rightarrow> size_t list \<Rightarrow> error + size_t list" where
  "fill_loop loInclusive samplesRangeSize i distinctSamples =
     (if i < samplesRangeSize then
        (if unat i < length distinctSamples
         then fill_loop loInclusive samplesRangeSize (i + 1)
                (distinctSamples[unat i := loInclusive + i])
         else Inl OutOfBounds)
      else Inr distinctSamples)"
  by pat_completeness auto
termination
proof (relation "measure (\<lambda>(lo, n, i, ds). unat n - unat i)", goal_cases)
  case 1
  show ?case by simp
next
  case (2 lo n i ds)
  have "unat n < 2 ^ 64" using unsigned_less [of n, where ?'a = nat] by simp
  with 2(1) have "unat (i + 1) = Suc (unat i)"
    by (simp add: word_less_nat_alt unat_word_ariths)
  with 2(1) show ?case by (simp add: word_less_nat_alt)
qed

text \<open>\<open>ObtainDistinctSamples\<close>. The arguments \<open>distinctSamples\<close> and \<open>g\<close>
  are the output vector and the engine as the caller leaves them; the result is the
  vector and the engine as the call leaves them.\<close>

definition ObtainDistinctSamples ::
  "('g \<Rightarrow> double \<times> 'g) \<Rightarrow> (nat \<Rightarrow> size_t) \<Rightarrow> size_t \<Rightarrow> size_t \<Rightarrow> size_t
     \<Rightarrow> size_t list \<Rightarrow> 'g \<Rightarrow> error + (size_t list \<times> 'g)" where
  "ObtainDistinctSamples U mem loInclusive hiExclusive maxNumSamples distinctSamples g =
     (let samplesRangeSize = hiExclusive - loInclusive in
      if maxNumSamples < samplesRangeSize then
        (case draw_loop U samplesRangeSize maxNumSamples 0
                (replicate (unat samplesRangeSize) 0) g of
           Inl e \<Rightarrow> Inl e
         | Inr (samples, g') \<Rightarrow>
             (let found = find_arma (gt_scalar samples 0) in
              Inr (if 0 < loInclusive then add_scalar found loInclusive else found, g')))
      else
        (case fill_loop loInclusive samplesRangeSize 0
                (set_size mem distinctSamples (unat samplesRangeSize)) of
           Inl e \<Rightarrow> Inl e
         | Inr filled \<Rightarrow> Inr (filled, g)))"

section \<open>Reference notions\<close>

text \<open>The values that \<open>n\<close> successive calls \<open>RandInt(h)\<close> return from engine
  state \<open>g\<close>, and the engine state after \<open>n\<close> draws.\<close>

fun draws :: "('g \<Rightarrow> double \<times> 'g) \<Rightarrow> c_int \<Rightarrow> nat \<Rightarrow> 'g \<Rightarrow> c_int list" where
  "draws U h 0 g = []"
| "draws U h (Suc n) g = (case RandInt U h g of (r, g') \<Rightarrow> r # draws U h n g')"

fun advance :: "('g \<Rightarrow> double \<times> 'g) \<Rightarrow> nat \<Rightarrow> 'g \<Rightarrow> 'g" where
  "advance U 0 g = g"
| "advance U (Suc n) g = advance U n (snd (U g))"

text \<open>The offset a drawn \<open>int\<close> indexes: \<open>(size_t) r\<close>.\<close>

definition offset_of :: "c_int \<Rightarrow> nat" where
  "offset_of r = unat (scast r :: size_t)"

text \<open>One increment of a counter.\<close>

definition bump :: "size_t list \<Rightarrow> nat \<Rightarrow> size_t list" where
  "bump s j = s[j := s ! j + 1]"

text \<open>Two engines for the examples. The state of \<open>eighths\<close> counts the draws, and
  draw \<open>n\<close> is \<open>((5 n + 3) mod 8) / 8\<close>; \<open>halves\<close> always draws \<open>1 / 2\<close>.
\<close>

definition eighths :: "nat \<Rightarrow> double \<times> nat" where
  "eighths n = (Double (int ((5 * n + 3) mod 8)) (- 3), Suc n)"

definition halves :: "nat \<Rightarrow> double \<times> nat" where
  "halves n = (Double 1 (- 1), Suc n)"

section \<open>Rounding of the product\<close>

text \<open>The product of a positive \<open>int\<close> and a double of \<open>[0, 1)\<close>, after rounding,
  is still below the \<open>int\<close>: the largest double below one is \<open>1 - 2 ^ -53\<close>, and
  the rounding error is at most half a unit in the last place of a number with 53 bits.\<close>

lemma bitlen_gt_imp:
  assumes "53 < bitlen a"
  shows "2 ^ 53 * 2 ^ (nat (bitlen a - 53) - 1) \<le> a"
proof -
  from assms have pos: "0 < a" using bitlen_eq_zero_iff [of a] by (cases "0 < a") auto
  have "nat (bitlen a - 1) = 53 + (nat (bitlen a - 53) - 1)" using assms by simp
  moreover have "2 ^ nat (bitlen a - 1) \<le> a" using bitlen_bounds [OF pos] by blast
  ultimately have "2 ^ (53 + (nat (bitlen a - 53) - 1)) \<le> a" by (simp only:)
  then show ?thesis by (simp only: power_add)
qed

lemma div_less_of_less_mult:
  fixes q c H :: int
  assumes "0 < c" and "q < H * c"
  shows "q div c < H"
proof -
  have "q div c * c + q mod c = q" by (rule div_mult_mod_eq)
  moreover have "0 \<le> q mod c" using assms(1) by simp
  ultimately have "q div c * c \<le> q" by linarith
  with assms(2) have "q div c * c < H * c" by linarith
  with assms(1) show ?thesis by simp
qed

lemma round53_upper:
  assumes H: "0 < H" and m0: "0 \<le> m" and m53: "m < 2 ^ 53" and mk: "m < 2 ^ k"
  shows "\<exists>q s. round53 (H * m) e = Double q (e + int s) \<and> 0 \<le> q \<and> q * 2 ^ s < H * 2 ^ k"
proof (cases "bitlen \<bar>H * m\<bar> \<le> 53")
  case True
  have "H * m < H * 2 ^ k" using H mk by simp
  moreover have "0 \<le> H * m" using H m0 by simp
  ultimately show ?thesis using True
    by (intro exI [of _ "H * m"] exI [of _ "0::nat"]) (simp add: round53_def Let_def)
next
  case False
  define M where "M = H * m"
  have M0: "0 \<le> M" using H m0 by (simp add: M_def)
  define s where "s = nat (bitlen M - 53)"
  define q where "q = M div 2 ^ s"
  define r where "r = M mod 2 ^ s"
  define q' where "q' = (if 2 ^ (s - 1) < r \<or> (r = 2 ^ (s - 1) \<and> odd q) then q + 1 else q)"
  from False M0 have L: "53 < bitlen M" by (simp add: M_def)
  then have s1: "1 \<le> s" by (simp add: s_def)
  then have two: "(2::int) ^ s = 2 * 2 ^ (s - 1)" by (cases s) simp_all
  have Mpos: "0 < M" using L bitlen_eq_zero_iff [of M] by (cases "0 < M") auto
  have eq: "round53 (H * m) e = Double q' (e + int s)"
    using L M0 Mpos by (simp add: round53_def Let_def M_def [symmetric] s_def [symmetric]
        q_def [symmetric] r_def [symmetric] q'_def)
  have split: "M = q * 2 ^ s + r" unfolding q_def r_def by (rule div_mult_mod_eq [symmetric])
  have r0: "0 \<le> r" by (simp add: r_def)
  have q0: "0 \<le> q" using M0 by (simp add: q_def pos_imp_zdiv_nonneg_iff)
  have up: "q' * 2 ^ s \<le> M + 2 ^ (s - 1)"
  proof (cases "q' = q")
    case True
    then show ?thesis using split r0 by simp
  next
    case False
    then have "q' = q + 1" and "2 ^ (s - 1) \<le> r"
      by (auto simp: q'_def split: if_splits)
    then show ?thesis using split two by (simp add: algebra_simps)
  qed
  have "2 ^ 53 * 2 ^ (s - 1) \<le> M" using bitlen_gt_imp [OF L] by (simp add: s_def)
  also have "M < H * 2 ^ 53" using H m53 by (simp add: M_def)
  finally have hs: "2 ^ (s - 1) < H" by simp
  have "m + 1 \<le> 2 ^ k" using mk by simp
  then have "H * (m + 1) \<le> H * 2 ^ k" using H by (simp only: mult_le_cancel_left_pos)
  then have "M + H \<le> H * 2 ^ k" by (simp add: M_def algebra_simps)
  with up hs have "q' * 2 ^ s < H * 2 ^ k" by linarith
  moreover have "0 \<le> q'" using q0 by (simp add: q'_def)
  ultimately show ?thesis using eq by blast
qed

lemma dfloor_scaled:
  assumes q0: "0 \<le> q" and lt: "q * 2 ^ s < H * 2 ^ k"
  shows "0 \<le> dfloor (Double q (int s - int k)) \<and> dfloor (Double q (int s - int k)) < H"
proof (cases "k \<le> s")
  case True
  then have "(2::int) ^ s = 2 ^ (s - k) * 2 ^ k" by (simp flip: power_add)
  with lt have "q * 2 ^ (s - k) * 2 ^ k < H * 2 ^ k" by (simp add: mult.assoc)
  then have "q * 2 ^ (s - k) < H" by simp
  moreover have "nat (int s - int k) = s - k" using True by simp
  ultimately show ?thesis using True q0 by (simp add: dfloor_def)
next
  case False
  then have "(2::int) ^ k = 2 ^ (k - s) * 2 ^ s" by (simp flip: power_add)
  with lt have "q * 2 ^ s < H * 2 ^ (k - s) * 2 ^ s" by (simp add: mult.assoc)
  then have "q < H * 2 ^ (k - s)" by simp
  then have "q div 2 ^ (k - s) < H" by (intro div_less_of_less_mult) simp_all
  moreover have "nat (int k - int s) = k - s" using False by simp
  moreover have "0 \<le> q div 2 ^ (k - s)" using q0 by (simp add: pos_imp_zdiv_nonneg_iff)
  ultimately show ?thesis using False by (simp add: dfloor_def)
qed

lemma floor_product_range:
  assumes u: "unit_double u" and H: "0 < H"
  shows "0 \<le> dfloor (round53 (H * mant u) (expo u)) \<and> dfloor (round53 (H * mant u) (expo u)) < H"
proof (cases "0 \<le> expo u")
  case True
  with u have "mant u = 0" by (simp add: unit_double_def)
  then show ?thesis using H by (simp add: round53_def dfloor_def)
next
  case False
  define k where "k = nat (- expo u)"
  from False have e: "expo u = - int k" by (simp add: k_def)
  from u False have "0 \<le> mant u" "mant u < 2 ^ 53" "mant u < 2 ^ k"
    by (simp_all add: unit_double_def k_def)
  from round53_upper [OF H this, of "expo u"] obtain q s where
    "round53 (H * mant u) (expo u) = Double q (expo u + int s)" "0 \<le> q" "q * 2 ^ s < H * 2 ^ k"
    by blast
  then show ?thesis using dfloor_scaled [of q s H k] by (simp add: e)
qed

lemma floor_product_zero: "dfloor (round53 (0 * m) e) = 0"
  by (simp add: round53_def dfloor_def)

section \<open>The integer generator\<close>

lemma unit_double_eighths: "unit_double (fst (eighths n))"
proof -
  have "(5 * n + 3) mod 8 < 8" by simp
  then have "int ((5 * n + 3) mod 8) < 8" by linarith
  then show ?thesis by (simp add: eighths_def unit_double_def)
qed

lemma unit_dist_eighths: "unit_dist eighths"
  by (simp add: unit_dist_def unit_double_eighths)

lemma RandInt_eq:
  "RandInt U h g = (int_of_floor (dfloor (round53 (sint h * mant (fst (U g))) (expo (fst (U g))))), snd (U g))"
  by (simp add: RandInt_def dmul_def double_of_int_def split: prod.split)

lemma RandInt_in_range:
  assumes "unit_double (fst (U g))" and "0 < sint hiExclusive"
  shows "0 \<le> sint (fst (RandInt U hiExclusive g)) \<and>
         sint (fst (RandInt U hiExclusive g)) < sint hiExclusive"
proof -
  define z where "z = dfloor (round53 (sint hiExclusive * mant (fst (U g))) (expo (fst (U g))))"
  have z: "0 \<le> z \<and> z < sint hiExclusive"
    unfolding z_def using assms by (rule floor_product_range)
  moreover have "sint hiExclusive < 2 ^ 31" using sint_lt [of hiExclusive] by simp
  ultimately have "sint (word_of_int z :: c_int) = z"
    by (simp add: signed_of_int signed_take_bit_int_eq_self)
  with z show ?thesis by (simp add: RandInt_eq int_of_floor_def z_def)
qed


text \<open>For a negative bound the floor lies between the bound and zero, so the conversion
  of the floor to \<open>int\<close> never leaves the range of \<open>int\<close>.\<close>

lemma round53_minus:
  "round53 (- m) e = Double (- mant (round53 m e)) (expo (round53 m e))"
  by (simp add: round53_def Let_def)

lemma le_div_of_mult_le:
  fixes a b c :: int
  assumes "0 < c" and "b * c \<le> a"
  shows "b \<le> a div c"
proof -
  have "a div c * c + a mod c = a" by (rule div_mult_mod_eq)
  moreover have "a mod c < c" using assms(1) by simp
  ultimately have "a - c < a div c * c" by linarith
  with assms(2) have "(b - 1) * c < a div c * c" by (simp add: algebra_simps)
  with assms(1) have "b - 1 < a div c" by simp
  then show ?thesis by simp
qed

lemma dfloor_scaled_minus:
  assumes q0: "0 \<le> q" and lt: "q * 2 ^ s < H * 2 ^ k"
  shows "- H \<le> dfloor (Double (- q) (int s - int k)) \<and> dfloor (Double (- q) (int s - int k)) \<le> 0"
proof (cases "k \<le> s")
  case True
  then have "(2::int) ^ s = 2 ^ (s - k) * 2 ^ k" by (simp flip: power_add)
  with lt have "q * 2 ^ (s - k) * 2 ^ k < H * 2 ^ k" by (simp add: mult.assoc)
  then have "q * 2 ^ (s - k) < H" by simp
  moreover have "nat (int s - int k) = s - k" using True by simp
  ultimately show ?thesis using True q0 by (simp add: dfloor_def)
next
  case False
  then have "(2::int) ^ k = 2 ^ (k - s) * 2 ^ s" by (simp flip: power_add)
  with lt have "q * 2 ^ s < H * 2 ^ (k - s) * 2 ^ s" by (simp add: mult.assoc)
  then have "q < H * 2 ^ (k - s)" by simp
  then have "- H * 2 ^ (k - s) \<le> - q" by simp
  then have "- H \<le> (- q) div 2 ^ (k - s)" by (intro le_div_of_mult_le) simp_all
  moreover have "nat (int k - int s) = k - s" using False by simp
  moreover have "(- q) div 2 ^ (k - s) \<le> 0" using q0 by (intro div_nonpos_pos_le0) simp_all
  ultimately show ?thesis using False by (simp add: dfloor_def)
qed

lemma floor_product_range_minus:
  assumes u: "unit_double u" and H: "0 < H"
  shows "- H \<le> dfloor (round53 (- H * mant u) (expo u)) \<and>
         dfloor (round53 (- H * mant u) (expo u)) \<le> 0"
proof (cases "0 \<le> expo u")
  case True
  with u have "mant u = 0" by (simp add: unit_double_def)
  then show ?thesis using H by (simp add: round53_def dfloor_def)
next
  case False
  define k where "k = nat (- expo u)"
  from False have e: "expo u = - int k" by (simp add: k_def)
  from u False have "0 \<le> mant u" "mant u < 2 ^ 53" "mant u < 2 ^ k"
    by (simp_all add: unit_double_def k_def)
  from round53_upper [OF H this, of "expo u"] obtain q s where
    "round53 (H * mant u) (expo u) = Double q (expo u + int s)" "0 \<le> q" "q * 2 ^ s < H * 2 ^ k"
    by blast
  moreover have "round53 (- H * mant u) (expo u) =
      Double (- mant (round53 (H * mant u) (expo u))) (expo (round53 (H * mant u) (expo u)))"
    using round53_minus [of "H * mant u" "expo u"] by simp
  ultimately show ?thesis using dfloor_scaled_minus [of q s H k] by (simp add: e)
qed

lemma RandInt_cast_exact:
  assumes "unit_double (fst (U g))"
  shows "sint (fst (RandInt U hiExclusive g)) =
         dfloor (dmul (double_of_int hiExclusive) (fst (U g)))"
proof -
  define H where "H = sint hiExclusive"
  define z where "z = dfloor (round53 (H * mant (fst (U g))) (expo (fst (U g))))"
  have lo: "- (2 ^ 31) \<le> H" using sint_ge [of hiExclusive] by (simp add: H_def)
  have hi: "H < 2 ^ 31" using sint_lt [of hiExclusive] by (simp add: H_def)
  have "- (2 ^ 31) \<le> z \<and> z < 2 ^ 31"
  proof (cases "0 < H")
    case True
    from floor_product_range [OF assms True] hi show ?thesis by (simp add: z_def)
  next
    case False
    show ?thesis
    proof (cases "H = 0")
      case True
      then show ?thesis by (simp add: z_def round53_def dfloor_def)
    next
      case False
      with \<open>\<not> 0 < H\<close> have "0 < - H" by simp
      from floor_product_range_minus [OF assms this] lo show ?thesis by (simp add: z_def)
    qed
  qed
  then have "sint (word_of_int z :: c_int) = z"
    by (simp add: signed_of_int signed_take_bit_int_eq_self)
  then show ?thesis
    by (simp add: RandInt_eq int_of_floor_def z_def H_def dmul_def double_of_int_def)
qed

section \<open>The drawing loop\<close>

lemma unat_Suc_less:
  fixes i n :: size_t
  assumes "i < n"
  shows "unat (i + 1) = Suc (unat i)"
proof -
  have "unat n < 2 ^ 64" using unsigned_less [of n, where ?'a = nat] by simp
  with assms show ?thesis by (simp add: word_less_nat_alt unat_word_ariths)
qed

declare draw_loop.simps [simp del] fill_loop.simps [simp del]

lemma length_bump [simp]: "length (bump s j) = length s"
  by (simp add: bump_def)

lemma draw_loop_step:
  "draw_loop U rs n i samples g =
     (if i < n then
        (if offset_of (fst (RandInt U (ucast rs) g)) < length samples
         then draw_loop U rs n (i + 1)
                (bump samples (offset_of (fst (RandInt U (ucast rs) g)))) (snd (U g))
         else Inl OutOfBounds)
      else Inr (samples, g))"
  by (subst draw_loop.simps)
     (simp add: offset_of_def bump_def Let_def RandInt_eq)

lemma draw_loop_Inr:
  assumes "draw_loop U rs n i samples g = Inr (samples', g')" and "i \<le> n"
  shows "(\<forall>r \<in> set (draws U (ucast rs) (unat n - unat i) g). offset_of r < length samples) \<and>
         samples' = foldl bump samples (map offset_of (draws U (ucast rs) (unat n - unat i) g)) \<and>
         g' = advance U (unat n - unat i) g"
  using assms
proof (induction U rs n i samples g rule: draw_loop.induct)
  case (1 U rs n i samples g)
  show ?case
  proof (cases "i < n")
    case False
    with "1.prems" have "unat n - unat i = 0" by (simp add: word_less_nat_alt word_le_nat_alt)
    with False "1.prems"(1) show ?thesis by (simp add: draw_loop_step [of U rs n i])
  next
    case True
    define r where "r = fst (RandInt U (ucast rs) g)"
    define g1 where "g1 = snd (U g)"
    have rg: "(r, g1) = RandInt U (ucast rs) g"
      by (simp add: r_def g1_def RandInt_eq)
    have suc: "unat (i + 1) = Suc (unat i)" using True by (rule unat_Suc_less)
    have k: "unat n - unat i = Suc (unat n - unat (i + 1))"
      using True suc by (simp add: word_less_nat_alt)
    have le: "i + 1 \<le> n" using True suc by (simp add: word_less_nat_alt word_le_nat_alt)
    from "1.prems"(1) True have inb: "offset_of r < length samples"
      by (simp add: draw_loop_step [of U rs n i] r_def split: if_splits)
    with "1.prems"(1) True
    have rec: "draw_loop U rs n (i + 1) (bump samples (offset_of r)) g1 = Inr (samples', g')"
      by (simp add: draw_loop_step [of U rs n i] r_def g1_def)
    have "(\<forall>r' \<in> set (draws U (ucast rs) (unat n - unat (i + 1)) g1).
              offset_of r' < length (bump samples (offset_of r))) \<and>
          samples' = foldl bump (bump samples (offset_of r))
                       (map offset_of (draws U (ucast rs) (unat n - unat (i + 1)) g1)) \<and>
          g' = advance U (unat n - unat (i + 1)) g1"
      using "1.IH" [OF True rg refl, folded offset_of_def, folded bump_def, OF inb rec le] .
    then show ?thesis using inb rg [symmetric] by (simp add: k g1_def)
  qed
qed

section \<open>The counters\<close>

lemma foldl_bump:
  assumes "\<forall>j \<in> set offs. j < length s"
  shows "length (foldl bump s offs) = length s \<and>
         (\<forall>j < length s. foldl bump s offs ! j = s ! j + of_nat (count_list offs j))"
  using assms
proof (induction offs arbitrary: s)
  case Nil
  show ?case by simp
next
  case (Cons a offs)
  from Cons.prems have "\<forall>j \<in> set offs. j < length (bump s a)" by simp
  from Cons.IH [OF this] Cons.prems show ?case
    by (auto simp: bump_def nth_list_update)
qed

lemma of_nat_count_eq_0:
  assumes "length offs < 2 ^ 64"
  shows "(of_nat (count_list offs j) :: size_t) = 0 \<longleftrightarrow> j \<notin> set offs"
proof -
  have "count_list offs j \<le> length offs" by (rule count_le_length)
  with assms have lt: "count_list offs j < 2 ^ LENGTH(64)" by simp
  have "unat (of_nat (count_list offs j) :: size_t) = count_list offs j"
    by (rule of_nat_inverse [OF refl lt])
  then have "(of_nat (count_list offs j) :: size_t) = 0 \<longleftrightarrow> count_list offs j = 0"
    using unat_eq_0 [of "of_nat (count_list offs j) :: size_t"] by (simp only:)
  then show ?thesis by (simp only: count_list_0_iff)
qed

lemma find_arma_counters:
  assumes "\<forall>j \<in> set offs. j < m" and "length offs < 2 ^ 64"
  shows "find_arma (gt_scalar (foldl bump (replicate m 0) offs) 0) =
         map of_nat (filter (\<lambda>j. j \<in> set offs) [0..<m])"
proof -
  let ?s = "foldl bump (replicate m 0) offs"
  from assms(1) have b: "\<forall>j \<in> set offs. j < length (replicate m (0::size_t))" by simp
  from foldl_bump [OF b] have len: "length ?s = m"
    and nth: "\<And>j. j < m \<Longrightarrow> ?s ! j = of_nat (count_list offs j)" by simp_all
  have "filter (\<lambda>j. gt_scalar ?s 0 ! j \<noteq> 0) [0..<m] = filter (\<lambda>j. j \<in> set offs) [0..<m]"
  proof (rule filter_cong [OF refl])
    fix j assume "j \<in> set [0..<m]"
    then have j: "j < m" by simp
    then have "gt_scalar ?s 0 ! j \<noteq> 0 \<longleftrightarrow> ?s ! j \<noteq> 0"
      by (simp add: gt_scalar_def len word_neq_0_conv)
    then show "gt_scalar ?s 0 ! j \<noteq> 0 \<longleftrightarrow> j \<in> set offs"
      using nth [OF j] of_nat_count_eq_0 [OF assms(2), of j] by simp
  qed
  then show ?thesis by (simp add: find_arma_def gt_scalar_def len)
qed

lemma length_draws [simp]: "length (draws U h n g) = n"
  by (induction n arbitrary: g) (simp_all add: RandInt_eq)

lemma ObtainDistinctSamples_sparse:
  assumes sparse: "maxNumSamples < hiExclusive - loInclusive"
    and ret: "ObtainDistinctSamples U mem loInclusive hiExclusive maxNumSamples distinctSamples g
              = Inr (out, g')"
  shows "(\<forall>r \<in> set (draws U (ucast (hiExclusive - loInclusive)) (unat maxNumSamples) g).
            offset_of r < unat (hiExclusive - loInclusive)) \<and>
         out = map (\<lambda>j. of_nat j + loInclusive)
                 (filter (\<lambda>j. j \<in> offset_of `
                     set (draws U (ucast (hiExclusive - loInclusive)) (unat maxNumSamples) g))
                   [0..<unat (hiExclusive - loInclusive)]) \<and>
         g' = advance U (unat maxNumSamples) g"
proof -
  define rs where "rs = hiExclusive - loInclusive"
  define ds where "ds = draws U (ucast rs) (unat maxNumSamples) g"
  from ret sparse obtain samples where
    loop: "draw_loop U rs maxNumSamples 0 (replicate (unat rs) 0) g = Inr (samples, g')"
    and out: "out = (if 0 < loInclusive
                     then add_scalar (find_arma (gt_scalar samples 0)) loInclusive
                     else find_arma (gt_scalar samples 0))"
    by (auto simp: ObtainDistinctSamples_def Let_def rs_def split: sum.splits)
  from draw_loop_Inr [OF loop]
  have inb: "\<forall>r \<in> set ds. offset_of r < unat rs"
    and samples: "samples = foldl bump (replicate (unat rs) 0) (map offset_of ds)"
    and g': "g' = advance U (unat maxNumSamples) g"
    by (simp_all add: ds_def)
  have "unat maxNumSamples < 2 ^ 64"
    using unsigned_less [of maxNumSamples, where ?'a = nat] by simp
  then have "length (map offset_of ds) < 2 ^ 64" by (simp add: ds_def)
  moreover from inb have "\<forall>j \<in> set (map offset_of ds). j < unat rs" by simp
  ultimately have found: "find_arma (gt_scalar samples 0) =
      map of_nat (filter (\<lambda>j. j \<in> set (map offset_of ds)) [0..<unat rs])"
    unfolding samples by (rule find_arma_counters [rotated])
  have "out = map (\<lambda>j. of_nat j + loInclusive)
                (filter (\<lambda>j. j \<in> offset_of ` set ds) [0..<unat rs])"
  proof (cases "0 < loInclusive")
    case True
    with out found show ?thesis by (simp add: add_scalar_def)
  next
    case False
    then have "loInclusive = 0" by (simp add: word_neq_0_conv [symmetric])
    with out found show ?thesis by simp
  qed
  with inb g' show ?thesis by (simp add: ds_def rs_def)
qed

section \<open>The dense regime\<close>

lemma fill_loop_Inr:
  assumes "length ds = unat n" and "i \<le> n"
  shows "fill_loop lo n i ds = Inr (take (unat i) ds @ map (\<lambda>j. lo + of_nat j) [unat i..<unat n])"
  using assms
proof (induction lo n i ds rule: fill_loop.induct)
  case (1 lo n i ds)
  show ?case
  proof (cases "i < n")
    case False
    with "1.prems" have "unat i = unat n" by (simp add: word_less_nat_alt word_le_nat_alt)
    with False "1.prems" show ?thesis by (subst fill_loop.simps) simp
  next
    case True
    have suc: "unat (i + 1) = Suc (unat i)" using True by (rule unat_Suc_less)
    have lt: "unat i < unat n" using True by (simp add: word_less_nat_alt)
    have le: "i + 1 \<le> n" using lt suc by (simp add: word_le_nat_alt)
    have inb: "unat i < length ds" using lt "1.prems" by simp
    have "fill_loop lo n (i + 1) (ds[unat i := lo + i]) =
          Inr (take (unat (i + 1)) (ds[unat i := lo + i]) @
               map (\<lambda>j. lo + of_nat j) [unat (i + 1)..<unat n])"
      using "1.IH" [OF True inb _ le] "1.prems" by simp
    moreover have "take (Suc (unat i)) (ds[unat i := lo + i]) = take (unat i) ds @ [lo + i]"
      using inb by (simp add: take_Suc_conv_app_nth)
    moreover have "[unat i..<unat n] = unat i # [Suc (unat i)..<unat n]"
      using lt by (simp add: upt_conv_Cons)
    ultimately show ?thesis using True inb
      by (simp add: fill_loop.simps [of lo n i] suc)
  qed
qed

lemma length_set_size [simp]: "length (set_size mem xs n) = n"
  by (simp add: set_size_def)

lemma ObtainDistinctSamples_dense:
  assumes "hiExclusive - loInclusive \<le> maxNumSamples"
  shows "ObtainDistinctSamples U mem loInclusive hiExclusive maxNumSamples distinctSamples g =
         Inr (map (\<lambda>j. loInclusive + of_nat j) [0..<unat (hiExclusive - loInclusive)], g)"
proof -
  define rs where "rs = hiExclusive - loInclusive"
  have "\<not> maxNumSamples < rs" using assms by (simp add: rs_def)
  moreover have "fill_loop loInclusive rs 0 (set_size mem distinctSamples (unat rs)) =
      Inr (map (\<lambda>j. loInclusive + of_nat j) [0..<unat rs])"
    using fill_loop_Inr [of "set_size mem distinctSamples (unat rs)" rs 0 loInclusive] by simp
  ultimately show ?thesis
    by (simp add: ObtainDistinctSamples_def Let_def rs_def [symmetric])
qed

section \<open>The shape of a returned sequence\<close>

lemma unat_offset_add:
  fixes lo hi :: size_t
  assumes "lo \<le> hi" and "j < unat (hi - lo)"
  shows "unat (of_nat j + lo) = j + unat lo"
proof -
  have hi: "unat hi < 2 ^ 64" using unsigned_less [of hi, where ?'a = nat] by simp
  from assms have "j + unat lo < unat hi" by (simp add: unat_sub)
  with hi have "j + unat lo < 2 ^ 64" and "j < 2 ^ 64" by simp_all
  then show ?thesis by (simp add: unat_word_ariths unat_of_nat)
qed

lemma filter_mem_upt:
  assumes "A \<subseteq> {..<m}"
  shows "set (filter (\<lambda>j. j \<in> A) [0..<m]) = A"
    and "distinct (filter (\<lambda>j. j \<in> A) [0..<m])"
    and "length (filter (\<lambda>j. j \<in> A) [0..<m]) = card A"
proof -
  show s: "set (filter (\<lambda>j. j \<in> A) [0..<m]) = A" using assms by auto
  show d: "distinct (filter (\<lambda>j. j \<in> A) [0..<m])" by simp
  from distinct_card [OF d] s show "length (filter (\<lambda>j. j \<in> A) [0..<m]) = card A" by simp
qed

lemma ObtainDistinctSamples_shape:
  assumes ret: "ObtainDistinctSamples U mem loInclusive hiExclusive maxNumSamples distinctSamples g
              = Inr (out, g')"
  shows "\<exists>A. A \<subseteq> {..<unat (hiExclusive - loInclusive)} \<and>
             out = map (\<lambda>j. of_nat j + loInclusive)
                     (filter (\<lambda>j. j \<in> A) [0..<unat (hiExclusive - loInclusive)]) \<and>
             card A \<le> unat maxNumSamples \<and>
             (A = {} \<longleftrightarrow> maxNumSamples = 0 \<or> hiExclusive - loInclusive = 0)"
proof (cases "maxNumSamples < hiExclusive - loInclusive")
  case True
  define ds where "ds = draws U (ucast (hiExclusive - loInclusive)) (unat maxNumSamples) g"
  define A where "A = offset_of ` set ds"
  from ObtainDistinctSamples_sparse [OF True ret]
  have inb: "\<forall>r \<in> set ds. offset_of r < unat (hiExclusive - loInclusive)"
    and out: "out = map (\<lambda>j. of_nat j + loInclusive)
                      (filter (\<lambda>j. j \<in> A) [0..<unat (hiExclusive - loInclusive)])"
    by (simp_all add: ds_def A_def)
  from inb have sub: "A \<subseteq> {..<unat (hiExclusive - loInclusive)}" by (auto simp: A_def)
  have "card A \<le> card (set ds)" unfolding A_def by (rule card_image_le) simp
  also have "\<dots> \<le> length ds" by (rule card_length)
  finally have card: "card A \<le> unat maxNumSamples" by (simp add: ds_def)
  have "A = {} \<longleftrightarrow> length ds = 0" by (simp add: A_def)
  then have e1: "A = {} \<longleftrightarrow> maxNumSamples = 0" by (simp add: ds_def unat_eq_0)
  from True have "hiExclusive - loInclusive \<noteq> 0" by (auto simp: word_less_nat_alt)
  with e1 have "A = {} \<longleftrightarrow> maxNumSamples = 0 \<or> hiExclusive - loInclusive = 0" by simp
  with sub out card show ?thesis by blast
next
  case False
  define m where "m = unat (hiExclusive - loInclusive)"
  from False have le: "hiExclusive - loInclusive \<le> maxNumSamples" by simp
  from ObtainDistinctSamples_dense [OF le, of U mem distinctSamples g] ret
  have "out = map (\<lambda>j. loInclusive + of_nat j) [0..<m]" by (simp add: m_def)
  moreover have "filter (\<lambda>j. j \<in> {..<m}) [0..<m] = [0..<m]" by (simp add: filter_id_conv)
  ultimately have out: "out = map (\<lambda>j. of_nat j + loInclusive) (filter (\<lambda>j. j \<in> {..<m}) [0..<m])"
    by (simp add: add.commute)
  have card: "card {..<m} \<le> unat maxNumSamples" using le by (simp add: m_def word_le_nat_alt)
  have "{..<m} = {} \<longleftrightarrow> m = 0" by (rule lessThan_empty_iff)
  also have "\<dots> \<longleftrightarrow> hiExclusive - loInclusive = 0" unfolding m_def by (rule unat_eq_0)
  finally have e0: "{..<m} = {} \<longleftrightarrow> hiExclusive - loInclusive = 0" .
  have "maxNumSamples = 0 \<Longrightarrow> hiExclusive - loInclusive = 0" using le by simp
  with e0 have "{..<m} = {} \<longleftrightarrow> maxNumSamples = 0 \<or> hiExclusive - loInclusive = 0" by blast
  with out card show ?thesis unfolding m_def by blast
qed

section \<open>When the call returns\<close>

text \<open>Every draw stays inside the counter array when the range size, narrowed to \<open>int\<close>, is
  not negative; this covers every range of fewer than \<open>2 ^ 31\<close> values.\<close>

lemma take_bit_64_small: "0 \<le> (z::int) \<Longrightarrow> z < 2 ^ 31 \<Longrightarrow> take_bit 64 z = z"
proof -
  assume a: "0 \<le> z" "z < 2 ^ 31"
  have "(2::int) ^ 31 \<le> 2 ^ 64" by (rule power_increasing) simp_all
  with a have "z < 2 ^ 64" by linarith
  with a(1) show ?thesis by (rule take_bit_int_eq_self)
qed

lemma offset_of_nonneg:
  assumes "0 \<le> sint r"
  shows "offset_of r = nat (sint r)"
proof -
  have "sint r < 2 ^ 31" using sint_lt [of r] by simp
  with assms have t: "take_bit 64 (sint r) = sint r" by (rule take_bit_64_small)
  have "unat (word_of_int (sint r) :: size_t) = nat (take_bit LENGTH(64) (sint r))"
    by (simp only: unsigned_of_int of_nat_id id_apply)
  also have "\<dots> = nat (sint r)" using t by simp
  finally show ?thesis by (simp only: offset_of_def scast_eq)
qed

lemma sint_ucast_le:
  fixes rs :: size_t
  assumes "0 \<le> sint (ucast rs :: c_int)"
  shows "nat (sint (ucast rs :: c_int)) \<le> unat rs"
proof -
  let ?h = "ucast rs :: c_int"
  have "sint ?h < 2 ^ 31" using sint_lt [of ?h] by simp
  then have "sint ?h < 2 ^ 32" by simp
  with assms have "take_bit 32 (sint ?h) = sint ?h" by (rule take_bit_int_eq_self)
  moreover have "uint ?h = take_bit 32 (sint ?h)" using uint_sint [of ?h] by simp
  ultimately have "sint ?h = uint ?h" by (simp only:)
  also have "\<dots> = take_bit 32 (uint rs)" using unsigned_ucast_eq [of rs, where ?'c = 32 and ?'a = int] by simp
  also have "\<dots> \<le> uint rs" by (simp only: take_bit_int_less_eq_self_iff unsigned_greater_eq)
  finally have "sint ?h \<le> uint rs" .
  then have "nat (sint ?h) \<le> nat (uint rs)" by (rule nat_mono)
  then show ?thesis by (simp only: unat_eq_nat_uint)
qed

lemma RandInt_zero: "fst (RandInt U 0 g) = 0"
  by (simp add: RandInt_eq round53_def dfloor_def int_of_floor_def)

lemma RandInt_offset_in_range:
  fixes rs :: size_t
  assumes U: "unit_dist U" and h: "0 \<le> sint (ucast rs :: c_int)" and rs: "rs \<noteq> 0"
  shows "offset_of (fst (RandInt U (ucast rs) g)) < unat rs"
proof (cases "sint (ucast rs :: c_int) = 0")
  case True
  then have "(ucast rs :: c_int) = 0" by (simp only: signed_eq_0_iff)
  then have "offset_of (fst (RandInt U (ucast rs) g)) = 0"
    by (simp add: RandInt_zero offset_of_def)
  with rs show ?thesis by (simp add: unat_gt_0)
next
  case False
  with h have pos: "0 < sint (ucast rs :: c_int)" by simp
  from U have "unit_double (fst (U g))" by (simp add: unit_dist_def)
  from RandInt_in_range [of U g "ucast rs", OF this pos]
  have r: "0 \<le> sint (fst (RandInt U (ucast rs) g))"
    "sint (fst (RandInt U (ucast rs) g)) < sint (ucast rs :: c_int)" by simp_all
  from r pos have "nat (sint (fst (RandInt U (ucast rs) g))) < nat (sint (ucast rs :: c_int))"
    by (simp only: nat_mono_iff)
  from this sint_ucast_le [OF h] have "nat (sint (fst (RandInt U (ucast rs) g))) < unat rs"
    by (rule less_le_trans)
  with offset_of_nonneg [OF r(1)] show ?thesis by simp
qed

lemma draw_loop_returns:
  assumes "\<And>g. offset_of (fst (RandInt U (ucast rs) g)) < length samples"
  shows "\<exists>s' g'. draw_loop U rs n i samples g = Inr (s', g')"
  using assms
proof (induction U rs n i samples g rule: draw_loop.induct)
  case (1 U rs n i samples g)
  show ?case
  proof (cases "i < n")
    case False
    then show ?thesis by (simp add: draw_loop_step [of U rs n i])
  next
    case True
    define r where "r = fst (RandInt U (ucast rs) g)"
    have rg: "(r, snd (U g)) = RandInt U (ucast rs) g" by (simp add: r_def RandInt_eq)
    have inb: "offset_of r < length samples" unfolding r_def by (rule "1.prems")
    have "\<exists>s' g'. draw_loop U rs n (i + 1) (bump samples (offset_of r)) (snd (U g)) = Inr (s', g')"
      using "1.IH" [OF True rg refl, folded offset_of_def, folded bump_def, OF inb] "1.prems"
      by simp
    with True inb show ?thesis by (simp add: draw_loop_step [of U rs n i] r_def)
  qed
qed

lemma ObtainDistinctSamples_returns:
  assumes U: "unit_dist U"
    and h: "0 \<le> sint (ucast (hiExclusive - loInclusive) :: c_int)"
  shows "\<exists>out g'. ObtainDistinctSamples U mem loInclusive hiExclusive maxNumSamples
           distinctSamples g = Inr (out, g')"
proof (cases "maxNumSamples < hiExclusive - loInclusive")
  case False
  then have "hiExclusive - loInclusive \<le> maxNumSamples" by simp
  from ObtainDistinctSamples_dense [OF this, of U mem distinctSamples g] show ?thesis by simp
next
  case True
  define rs where "rs = hiExclusive - loInclusive"
  from True have "rs \<noteq> 0" by (auto simp: rs_def word_less_nat_alt)
  with U h have "\<And>g. offset_of (fst (RandInt U (ucast rs) g)) < length (replicate (unat rs) (0::size_t))"
    by (simp add: RandInt_offset_in_range rs_def)
  from draw_loop_returns [OF this] obtain s' g' where
    "draw_loop U rs maxNumSamples 0 (replicate (unat rs) 0) g = Inr (s', g')" by blast
  with True show ?thesis by (simp add: ObtainDistinctSamples_def Let_def rs_def)
qed

section \<open>Auxiliary facts and examples\<close>

lemma ascending_range_eq:
  fixes lo hi :: size_t
  assumes "lo \<le> hi"
  shows "map (\<lambda>j. lo + of_nat j) [0..<unat (hi - lo)] = map of_nat [unat lo..<unat hi]"
proof -
  from assms have le: "unat lo \<le> unat hi" by (simp add: word_le_nat_alt)
  have "[unat lo..<unat hi] = map (\<lambda>i. i + unat lo) [0..<unat hi - unat lo]"
    using le by (simp add: map_add_upt)
  then have "map of_nat [unat lo..<unat hi] =
      map (\<lambda>j. (of_nat (j + unat lo) :: size_t)) [0..<unat hi - unat lo]"
    by (simp add: comp_def)
  also have "\<dots> = map (\<lambda>j. lo + of_nat j) [0..<unat hi - unat lo]"
    by (simp add: add.commute)
  finally show ?thesis using assms by (simp add: unat_sub)
qed

lemma ObtainDistinctSamples_ignores_output:
  "ObtainDistinctSamples U mem lo hi n ds g = ObtainDistinctSamples U mem' lo hi n ds' g"
proof (cases "n < hi - lo")
  case True
  then show ?thesis by (simp add: ObtainDistinctSamples_def Let_def)
next
  case False
  then have "hi - lo \<le> n" by simp
  then show ?thesis by (simp only: ObtainDistinctSamples_dense)
qed

lemma example_sparse:
  "ObtainDistinctSamples eighths (\<lambda>_. 7) 5 25 6 [1, 2, 3, 4] 0 = Inr ([5, 10, 12, 15, 17, 22], 6)"
  by code_simp

lemma example_dense:
  "ObtainDistinctSamples eighths (\<lambda>_. 7) 5 8 10 [1, 2] 0 = Inr ([5, 6, 7], 0)"
  by code_simp

lemma example_collisions:
  "ObtainDistinctSamples halves (\<lambda>_. 7) 3 13 4 [] 0 = Inr ([8], 4)"
  by code_simp

section \<open>Emptiness and the engine, for calls that return\<close>

text \<open>A returned sequence is empty exactly when no sample is requested or the range is
  empty, and the engine of a returning call has advanced by one draw per requested sample in
  the sparse regime and not at all in the dense regime. Both hold of every call whose narrowed
  range size is not negative, since such a call returns.\<close>

lemma returned_empty_iff:
  assumes "ObtainDistinctSamples U mem loInclusive hiExclusive maxNumSamples distinctSamples g
           = Inr (out, g')"
  shows "out = [] \<longleftrightarrow> maxNumSamples = 0 \<or> hiExclusive - loInclusive = 0"
proof -
  from ObtainDistinctSamples_shape [OF assms] obtain A where
    sub: "A \<subseteq> {..<unat (hiExclusive - loInclusive)}"
    and out: "out = map (\<lambda>j. of_nat j + loInclusive)
                (filter (\<lambda>j. j \<in> A) [0..<unat (hiExclusive - loInclusive)])"
    and e: "A = {} \<longleftrightarrow> maxNumSamples = 0 \<or> hiExclusive - loInclusive = 0" by blast
  have "out = [] \<longleftrightarrow> set (filter (\<lambda>j. j \<in> A) [0..<unat (hiExclusive - loInclusive)]) = {}"
    unfolding out by (simp only: map_is_Nil_conv set_empty)
  also have "\<dots> \<longleftrightarrow> A = {}" by (simp only: filter_mem_upt(1) [OF sub])
  finally show ?thesis using e by simp
qed

lemma returned_engine_state:
  assumes "ObtainDistinctSamples U mem loInclusive hiExclusive maxNumSamples distinctSamples g
           = Inr (out, g')"
  shows "g' = (if maxNumSamples < hiExclusive - loInclusive
               then advance U (unat maxNumSamples) g else g)"
proof (cases "maxNumSamples < hiExclusive - loInclusive")
  case True
  with ObtainDistinctSamples_sparse [OF True assms] show ?thesis by simp
next
  case False
  then have "hiExclusive - loInclusive \<le> maxNumSamples" by simp
  from ObtainDistinctSamples_dense [OF this, of U mem distinctSamples g] assms False
  show ?thesis by simp
qed

lemma empty_iff_when_in_range:
  assumes "unit_dist U" and "0 \<le> sint (ucast (hiExclusive - loInclusive) :: c_int)"
  shows "\<exists>out g'. ObtainDistinctSamples U mem loInclusive hiExclusive maxNumSamples
           distinctSamples g = Inr (out, g') \<and>
           (out = [] \<longleftrightarrow> maxNumSamples = 0 \<or> hiExclusive - loInclusive = 0)"
proof -
  from ObtainDistinctSamples_returns [OF assms, of mem maxNumSamples distinctSamples g]
  obtain out g' where ret: "ObtainDistinctSamples U mem loInclusive hiExclusive maxNumSamples
           distinctSamples g = Inr (out, g')" by blast
  from returned_empty_iff [OF ret] ret show ?thesis by blast
qed

lemma engine_state_when_in_range:
  assumes "unit_dist U" and "0 \<le> sint (ucast (hiExclusive - loInclusive) :: c_int)"
  shows "\<exists>out. ObtainDistinctSamples U mem loInclusive hiExclusive maxNumSamples
           distinctSamples g =
           Inr (out, if maxNumSamples < hiExclusive - loInclusive
                     then advance U (unat maxNumSamples) g else g)"
proof -
  from ObtainDistinctSamples_returns [OF assms, of mem maxNumSamples distinctSamples g]
  obtain out g' where ret: "ObtainDistinctSamples U mem loInclusive hiExclusive maxNumSamples
           distinctSamples g = Inr (out, g')" by blast
  from returned_engine_state [OF ret] ret show ?thesis by blast
qed

text \<open>A range of \<open>2 ^ 31\<close> values is narrowed to \<open>- 2 ^ 31\<close>. With a draw of
  \<open>1 / 2\<close> the first increment is outside the counter array, however many samples
  are requested.\<close>

lemma narrowed_range_fails:
  assumes "0 < n" and "n < 2147483648"
  shows "ObtainDistinctSamples halves mem 0 2147483648 n ds g = Inl OutOfBounds"
proof -
  have c: "(ucast (2147483648 :: size_t) :: c_int) = 2147483648" by simp
  have r: "fst (RandInt halves (2147483648 :: c_int) g) = - 1073741824"
    by (simp add: RandInt_eq halves_def round53_def dfloor_def int_of_floor_def compute_bitlen)
  have o: "offset_of (- 1073741824) = 18446744072635809792"
    by (simp add: offset_of_def)
  have "draw_loop halves 2147483648 n 0 (replicate (unat (2147483648 :: size_t)) 0) g
        = Inl OutOfBounds"
    using assms(1) by (subst draw_loop_step) (simp add: c r o)
  with assms(2) show ?thesis by (simp add: ObtainDistinctSamples_def)
qed

section \<open>The properties of the specification\<close>

text \<open>Claim C1 (dense regime exactness). When \<open>hiExclusive >= loInclusive\<close> and the range
  size \<open>hiExclusive - loInclusive\<close> is at most \<open>maxNumSamples\<close>, the call returns exactly
  the ascending sequence \<open>loInclusive, loInclusive + 1, ..., hiExclusive - 1\<close>, whatever the
  output vector and the fresh memory held before. No randomness is consumed: the engine is
  returned in the state it was given, and the result is the same for every distribution
  \<open>U\<close>.\<close>

theorem dense_regime_exact:
  assumes "loInclusive \<le> hiExclusive" and "hiExclusive - loInclusive \<le> maxNumSamples"
  shows "ObtainDistinctSamples U mem loInclusive hiExclusive maxNumSamples distinctSamples g =
         Inr (map of_nat [unat loInclusive..<unat hiExclusive], g)"
  using ObtainDistinctSamples_dense [OF assms(2), of U mem distinctSamples g]
    ascending_range_eq [OF assms(1)]
  by simp

theorem dense_regime_exact_witness:
  "(5 :: size_t) \<le> 8 \<and> (8 :: size_t) - 5 \<le> 10 \<and>
   ObtainDistinctSamples eighths (\<lambda>_. 7) 5 8 10 [1, 2] 0 = Inr ([5, 6, 7], 0)"
proof -
  have a: "(5 :: size_t) \<le> 8" and b: "(8 :: size_t) - 5 \<le> 10" by simp_all
  have "map of_nat [unat (5 :: size_t)..<unat (8 :: size_t)] = [5, 6, 7 :: size_t]" by code_simp
  with dense_regime_exact [OF a b, of eighths "\<lambda>_. 7" "[1, 2]" 0] a b show ?thesis by simp
qed

text \<open>Claim C3 (upper bound on count). Whenever the call returns a sequence, in either regime,
  its length is at most \<open>min(maxNumSamples, rangeSize)\<close>. The call returns whenever the
  narrowed range size is not negative (lemma \<open>ObtainDistinctSamples_returns\<close>).\<close>

theorem sample_count_bound:
  assumes "ObtainDistinctSamples U mem loInclusive hiExclusive maxNumSamples distinctSamples g
           = Inr (out, g')"
  shows "length out \<le> min (unat maxNumSamples) (unat (hiExclusive - loInclusive))"
proof -
  from ObtainDistinctSamples_shape [OF assms] obtain A where
    sub: "A \<subseteq> {..<unat (hiExclusive - loInclusive)}"
    and out: "out = map (\<lambda>j. of_nat j + loInclusive)
                (filter (\<lambda>j. j \<in> A) [0..<unat (hiExclusive - loInclusive)])"
    and card: "card A \<le> unat maxNumSamples" by blast
  have len: "length out = card A" using filter_mem_upt(3) [OF sub] by (simp add: out)
  have "card A \<le> card {..<unat (hiExclusive - loInclusive)}"
    using sub by (intro card_mono) simp_all
  with len card show ?thesis by simp
qed

theorem sample_count_bound_witness:
  "ObtainDistinctSamples halves (\<lambda>_. 7) 3 13 4 [] 0 = Inr ([8], 4) \<and>
   length [8 :: size_t] \<le> min (unat (4 :: size_t)) (unat (13 - 3 :: size_t))"
  using sample_count_bound [OF example_collisions] example_collisions by simp

text \<open>Claim C4 (bounds). When \<open>hiExclusive >= loInclusive\<close>, every value \<open>v\<close> of a returned
  sequence satisfies \<open>loInclusive <= v < hiExclusive\<close>.\<close>

theorem samples_within_bounds:
  assumes "ObtainDistinctSamples U mem loInclusive hiExclusive maxNumSamples distinctSamples g
           = Inr (out, g')"
    and "loInclusive \<le> hiExclusive"
  shows "\<forall>v \<in> set out. loInclusive \<le> v \<and> v < hiExclusive"
proof
  fix v assume v: "v \<in> set out"
  from ObtainDistinctSamples_shape [OF assms(1)] obtain A where
    sub: "A \<subseteq> {..<unat (hiExclusive - loInclusive)}"
    and out: "out = map (\<lambda>j. of_nat j + loInclusive)
                (filter (\<lambda>j. j \<in> A) [0..<unat (hiExclusive - loInclusive)])" by blast
  from v out obtain j where j: "j < unat (hiExclusive - loInclusive)"
    and vj: "v = of_nat j + loInclusive" by auto
  from unat_offset_add [OF assms(2) j] have u: "unat v = j + unat loInclusive" by (simp add: vj)
  from j assms(2) have "j + unat loInclusive < unat hiExclusive" by (simp add: unat_sub)
  with u show "loInclusive \<le> v \<and> v < hiExclusive"
    by (simp add: word_le_nat_alt word_less_nat_alt)
qed

theorem samples_within_bounds_witness:
  "ObtainDistinctSamples eighths (\<lambda>_. 7) 5 25 6 [1, 2, 3, 4] 0 = Inr ([5, 10, 12, 15, 17, 22], 6)
   \<and> (5 :: size_t) \<le> 25 \<and> list_all (\<lambda>v. 5 \<le> v \<and> v < 25) [5, 10, 12, 15, 17, 22 :: size_t]"
proof -
  have le: "(5 :: size_t) \<le> 25" by simp
  from samples_within_bounds [OF example_sparse le] example_sparse le show ?thesis
    by (simp only: list_all_iff)
qed

text \<open>Claim C5 (ascending order, no duplicates). When \<open>hiExclusive >= loInclusive\<close>, a
  returned sequence is strictly increasing in the unsigned order, and so has no repeated
  value.\<close>

theorem samples_strictly_increasing:
  assumes "ObtainDistinctSamples U mem loInclusive hiExclusive maxNumSamples distinctSamples g
           = Inr (out, g')"
    and "loInclusive \<le> hiExclusive"
  shows "sorted_wrt (<) out \<and> distinct out"
proof -
  define m where "m = unat (hiExclusive - loInclusive)"
  from ObtainDistinctSamples_shape [OF assms(1)] obtain A where
    out: "out = map (\<lambda>j. of_nat j + loInclusive) (filter (\<lambda>j. j \<in> A) [0..<m])"
    unfolding m_def by blast
  let ?xs = "filter (\<lambda>j. j \<in> A) [0..<m]"
  have "sorted_wrt (<) ?xs" by (rule sorted_wrt_filter) simp
  then have "sorted_wrt (\<lambda>x y. (of_nat x + loInclusive :: size_t) < of_nat y + loInclusive) ?xs"
  proof (rule sorted_wrt_mono_rel [rotated])
    fix x y assume "x \<in> set ?xs" "y \<in> set ?xs" "x < y"
    then have "x < m" "y < m" by simp_all
    then have "unat (of_nat x + loInclusive) = x + unat loInclusive"
      "unat (of_nat y + loInclusive) = y + unat loInclusive"
      using unat_offset_add [OF assms(2)] by (simp_all add: m_def)
    with \<open>x < y\<close> show "(of_nat x + loInclusive :: size_t) < of_nat y + loInclusive"
      by (simp add: word_less_nat_alt)
  qed
  then have "sorted_wrt (<) out" by (simp add: out sorted_wrt_map)
  then show ?thesis by (simp add: strict_sorted_iff)
qed

theorem samples_strictly_increasing_witness:
  "ObtainDistinctSamples eighths (\<lambda>_. 7) 5 25 6 [1, 2, 3, 4] 0 = Inr ([5, 10, 12, 15, 17, 22], 6)
   \<and> (5 :: size_t) \<le> 25 \<and> sorted_wrt (<) [5, 10, 12, 15, 17, 22 :: size_t]
   \<and> distinct [5, 10, 12, 15, 17, 22 :: size_t]"
proof -
  have le: "(5 :: size_t) \<le> 25" by simp
  from samples_strictly_increasing [OF example_sparse le] example_sparse le show ?thesis by blast
qed

text \<open>Claim C6 (emptiness), at a range of \<open>2 ^ 31\<close> values with one sample requested
  and a draw of \<open>1 / 2\<close>. Both \<open>maxNumSamples\<close> and the range size are at least one,
  so the claim promises a non-empty result; the only increment is outside the counter array
  and the call produces no sequence. This is the narrowing of the range size to \<open>int\<close>
  seen for claim C2. Calls whose narrowed range size is not negative return a sequence that
  is empty exactly as the claim says (lemma \<open>empty_iff_when_in_range\<close>).\<close>

theorem requested_sample_not_produced:
  "(1 :: size_t) \<noteq> 0 \<and> (2147483648 - 0 :: size_t) \<noteq> 0 \<and>
   ObtainDistinctSamples halves (\<lambda>_. 0) 0 2147483648 1 [] (0 :: nat) = Inl OutOfBounds"
proof -
  have "ObtainDistinctSamples halves (\<lambda>_. 0) 0 2147483648 1 [] (0 :: nat) = Inl OutOfBounds"
    by (rule narrowed_range_fails) simp_all
  then show ?thesis by simp
qed

text \<open>Claim C7 (determinism under a fixed seed). Two calls with the same \<open>loInclusive\<close>,
  \<open>hiExclusive\<close> and \<open>maxNumSamples\<close>, each made right after \<open>RandomSeed\<close> with the
  same seed, give the same result, whatever the engine state, the output vector and the fresh
  memory were before.\<close>

theorem seeded_determinism:
  "ObtainDistinctSamples U mem1 loInclusive hiExclusive maxNumSamples out1 (RandomSeed sd seed g1) =
   ObtainDistinctSamples U mem2 loInclusive hiExclusive maxNumSamples out2 (RandomSeed sd seed g2)"
  unfolding RandomSeed_def by (rule ObtainDistinctSamples_ignores_output)

text \<open>Claim C8 (contract of the integer generator). When the distribution draws doubles of
  \<open>[0, 1)\<close> and \<open>hiExclusive > 0\<close>, \<open>RandInt(hiExclusive)\<close> returns an \<open>int v\<close> with
  \<open>0 <= v < hiExclusive\<close>; the rounding of the product is part of the model.\<close>

theorem RandInt_contract:
  assumes "unit_dist U" and "0 < sint hiExclusive"
  shows "0 \<le> sint (fst (RandInt U hiExclusive g)) \<and>
         sint (fst (RandInt U hiExclusive g)) < sint hiExclusive"
proof -
  from assms(1) have "unit_double (fst (U g))" by (simp add: unit_dist_def)
  then show ?thesis using assms(2) by (rule RandInt_in_range)
qed

theorem RandInt_contract_witness:
  "unit_dist eighths \<and> 0 < sint (10 :: c_int) \<and> fst (RandInt eighths 10 2) = 6 \<and>
   0 \<le> sint (fst (RandInt eighths 10 2)) \<and> sint (fst (RandInt eighths 10 2)) < sint (10 :: c_int)"
proof -
  have p: "0 < sint (10 :: c_int)" by simp
  have "fst (RandInt eighths 10 2) = 6" by code_simp
  with RandInt_contract [OF unit_dist_eighths p, of 2] unit_dist_eighths p show ?thesis by blast
qed

text \<open>Claim C9 (frame effect on the engine), at a range of \<open>2 ^ 31\<close> values with two
  samples requested and draws of \<open>1 / 2\<close>. The call is in the sparse regime, so the claim
  promises two draws; the increment after the first draw is outside the counter array, and
  the call does not complete with the engine advanced twice. This is the narrowing of the
  range size to \<open>int\<close> seen for claim C2. Calls whose narrowed range size is not negative,
  and every call in the dense regime, leave the engine as the claim says
  (lemma \<open>engine_state_when_in_range\<close>).\<close>

theorem second_draw_not_reached:
  "(2 :: size_t) < 2147483648 - 0 \<and>
   ObtainDistinctSamples halves (\<lambda>_. 0) 0 2147483648 2 [] (0 :: nat) = Inl OutOfBounds"
proof -
  have "ObtainDistinctSamples halves (\<lambda>_. 0) 0 2147483648 2 [] (0 :: nat) = Inl OutOfBounds"
    by (rule narrowed_range_fails) simp_all
  then show ?thesis by simp
qed


text \<open>Claim C2 (sparse regime algorithm), at a range of \<open>2 ^ 31\<close> values with one sample
  requested and a draw of \<open>1 / 2\<close>. The range size is narrowed to the \<open>int\<close> parameter of
  \<open>RandInt\<close> as \<open>- 2 ^ 31\<close>; the value drawn is \<open>- 2 ^ 30\<close>, not an offset of the
  range, and the counter it indexes is outside the array. For ranges whose narrowed size is
  not negative, lemmas \<open>ObtainDistinctSamples_sparse\<close> and
  \<open>ObtainDistinctSamples_returns\<close> give the algorithm as the claim describes it.\<close>

theorem narrowed_range_out_of_bounds:
  "sint (fst (RandInt halves (ucast (2147483648 :: size_t)) 0)) = - 1073741824 \<and>
   ObtainDistinctSamples halves (\<lambda>_. 0) 0 2147483648 1 [] 0 = Inl OutOfBounds"
proof -
  have c: "(ucast (2147483648 :: size_t) :: c_int) = 2147483648" by simp
  have r: "fst (RandInt halves (2147483648 :: c_int) 0) = - 1073741824"
    by (simp add: RandInt_eq halves_def round53_def dfloor_def int_of_floor_def compute_bitlen)
  have o: "offset_of (- 1073741824) = 18446744072635809792"
    by (simp add: offset_of_def)
  have "draw_loop halves 2147483648 1 0 (replicate (unat (2147483648 :: size_t)) 0) 0
        = Inl OutOfBounds"
    by (subst draw_loop_step) (simp add: c r o)
  then show ?thesis by (simp add: ObtainDistinctSamples_def c r)
qed

end
